theory Spec2Isabelle
  imports Complex_Main
begin

section \<open>Beam-search decoding and evaluation statistics of \<open>test.py\<close>\<close>

text \<open>
  Token ids are Python integers (\<open>torch.long\<close> entries read back with \<open>in\<close> and
  \<open>torch.equal\<close>), probabilities are modelled as real numbers, a one-dimensional tensor
  is a list and a two-dimensional tensor is a list of rows.  Every exception the modelled
  code can raise is a value of \<open>py_error\<close>, returned on the left of a sum.
\<close>

type_synonym token = int

datatype py_error =
  IndexError | ValueError | RuntimeError | ZeroDivisionError | KeyError | TypeError

subsection \<open>\<open>remove_special_tokens\<close>\<close>

text \<open>
  The two counting loops of the \<open>strip_only\<close> branch: each stops at the first token that
  is not special.  The second one walks \<open>reversed(tokens)\<close>.
\<close>

fun num_left :: "token list \<Rightarrow> token list \<Rightarrow> nat" where
  "num_left [] special_tokens = 0"
| "num_left (tok # tokens) special_tokens =
     (if tok \<notin> set special_tokens then 0 else Suc (num_left tokens special_tokens))"

definition num_right :: "token list \<Rightarrow> token list \<Rightarrow> nat" where
  "num_right tokens special_tokens = num_left (rev tokens) special_tokens"

text \<open>
  Python's \<open>tokens[a:-b]\<close> for \<open>0 \<le> a\<close> and \<open>0 \<le> b \<le> len(tokens)\<close>.  The stop index
  \<open>-b\<close> counts from the end only when it is negative: for \<open>b = 0\<close> it is the index
  \<open>0\<close> itself, and the slice is empty.
\<close>

definition slice_to_neg :: "'a list \<Rightarrow> nat \<Rightarrow> nat \<Rightarrow> 'a list" where
  "slice_to_neg xs a b =
     (let stop = (if b = 0 then 0 else length xs - b) in drop a (take stop xs))"

definition remove_special_tokens :: "token list \<Rightarrow> token list \<Rightarrow> bool \<Rightarrow> token list" where
  "remove_special_tokens tokens special_tokens strip_only =
     (if strip_only
      then slice_to_neg tokens (num_left tokens special_tokens)
             (num_right tokens special_tokens)
      else filter (\<lambda>tok. tok \<notin> set special_tokens) tokens)"

subsection \<open>Hypotheses, batched and per input\<close>

text \<open>
  A batched hypothesis holds one row per input of the batch in every field; the hidden
  state is indexed by input in its second dimension (\<open>h["hidden"][:, i]\<close>), which the
  model keeps as a list over the inputs as well.  The hidden and attention values of one
  input are opaque (\<open>'h\<close>, \<open>'a\<close>).
\<close>

record ('h, 'a) single_hypothesis =
  s_full :: "token list"
  s_hidden :: 'h
  s_attn_low :: 'a
  s_attn_high :: 'a
  s_probability :: real

record ('h, 'a) batch_hypothesis =
  b_full :: "token list list"
  b_hidden :: "'h list"
  b_attn_low :: "'a list"
  b_attn_high :: "'a list"
  b_probability :: "real list"

subsection \<open>\<open>unbatch_hypotheses\<close>\<close>

text \<open>
  The dictionary \<open>single_h\<close> built for input \<open>i\<close>; indexing a tensor past its first
  dimension raises \<open>IndexError\<close>.  (\<open>i\<close> ranges over \<open>range(len(h["probability"]))\<close>, so
  the probability itself is always in range.)
\<close>

definition single_h :: "('h, 'a) batch_hypothesis \<Rightarrow> nat \<Rightarrow> py_error + ('h, 'a) single_hypothesis" where
  "single_h h i =
     (if i < length (b_full h) \<and> i < length (b_hidden h)
         \<and> i < length (b_attn_low h) \<and> i < length (b_attn_high h)
      then Inr \<lparr> s_full = b_full h ! i, s_hidden = b_hidden h ! i,
                 s_attn_low = b_attn_low h ! i, s_attn_high = b_attn_high h ! i,
                 s_probability = b_probability h ! i \<rparr>
      else Inl IndexError)"

text \<open>The inner loop over \<open>i\<close>; \<open>hypotheses_by_seq[i]\<close> raises past the end of the list.\<close>

fun unbatch_inner ::
  "('h, 'a) batch_hypothesis \<Rightarrow> nat list \<Rightarrow> ('h, 'a) single_hypothesis list list
     \<Rightarrow> py_error + ('h, 'a) single_hypothesis list list" where
  "unbatch_inner h [] by_seq = Inr by_seq"
| "unbatch_inner h (i # is) by_seq =
     (case single_h h i of
        Inl e \<Rightarrow> Inl e
      | Inr s \<Rightarrow>
          if i < length by_seq
          then unbatch_inner h is (by_seq[i := by_seq ! i @ [s]])
          else Inl IndexError)"

text \<open>The outer loop over the batched hypotheses.\<close>

fun unbatch_outer ::
  "('h, 'a) batch_hypothesis list \<Rightarrow> ('h, 'a) single_hypothesis list list
     \<Rightarrow> py_error + ('h, 'a) single_hypothesis list list" where
  "unbatch_outer [] by_seq = Inr by_seq"
| "unbatch_outer (h # hs) by_seq =
     (case unbatch_inner h [0..<length (b_probability h)] by_seq of
        Inl e \<Rightarrow> Inl e
      | Inr by_seq' \<Rightarrow> unbatch_outer hs by_seq')"

definition unbatch_hypotheses ::
  "('h, 'a) batch_hypothesis list \<Rightarrow> py_error + ('h, 'a) single_hypothesis list list" where
  "unbatch_hypotheses hypotheses =
     (case hypotheses of
        [] \<Rightarrow> Inr []
      | h0 # _ \<Rightarrow> unbatch_outer hypotheses (replicate (length (b_probability h0)) []))"

subsection \<open>\<open>batch_single_hypotheses\<close>\<close>

text \<open>
  \<open>torch.stack\<close> on token sequences: it raises \<open>RuntimeError\<close> on an empty list and on
  tensors of different sizes.  Stacking scalars (the probabilities) cannot fail; the
  shapes of the opaque hidden and attention values are not modelled.
\<close>

definition stack_tokens :: "token list list \<Rightarrow> py_error + token list list" where
  "stack_tokens ts =
     (case ts of
        [] \<Rightarrow> Inl RuntimeError
      | t # rest \<Rightarrow>
          if list_all (\<lambda>u. length u = length t) rest then Inr ts else Inl RuntimeError)"

text \<open>The dictionary \<open>batch_h\<close> built for rank \<open>i\<close> (\<open>i < min_len\<close>, so \<open>hs[i]\<close> exists).\<close>

definition batch_h ::
  "('h, 'a) single_hypothesis list list \<Rightarrow> nat \<Rightarrow> py_error + ('h, 'a) batch_hypothesis" where
  "batch_h single_hypotheses i =
     (case stack_tokens (map (\<lambda>hs. s_full (hs ! i)) single_hypotheses) of
        Inl e \<Rightarrow> Inl e
      | Inr full \<Rightarrow>
          Inr \<lparr> b_full = full,
                b_hidden = map (\<lambda>hs. s_hidden (hs ! i)) single_hypotheses,
                b_attn_low = map (\<lambda>hs. s_attn_low (hs ! i)) single_hypotheses,
                b_attn_high = map (\<lambda>hs. s_attn_high (hs ! i)) single_hypotheses,
                b_probability = map (\<lambda>hs. s_probability (hs ! i)) single_hypotheses \<rparr>)"

fun batch_loop ::
  "('h, 'a) single_hypothesis list list \<Rightarrow> nat list \<Rightarrow> py_error + ('h, 'a) batch_hypothesis list" where
  "batch_loop single_hypotheses [] = Inr []"
| "batch_loop single_hypotheses (i # is) =
     (case batch_h single_hypotheses i of
        Inl e \<Rightarrow> Inl e
      | Inr b \<Rightarrow>
          (case batch_loop single_hypotheses is of
             Inl e \<Rightarrow> Inl e
           | Inr batched_hypotheses \<Rightarrow> Inr (b # batched_hypotheses)))"

text \<open>\<open>min\<close> of an empty generator raises \<open>ValueError\<close>.\<close>

definition batch_single_hypotheses ::
  "('h, 'a) single_hypothesis list list \<Rightarrow> py_error + ('h, 'a) batch_hypothesis list" where
  "batch_single_hypotheses single_hypotheses =
     (if single_hypotheses = [] then Inl ValueError
      else batch_loop single_hypotheses [0..<min_list (map length single_hypotheses)])"

subsection \<open>\<open>pick_top_k_unique\<close>\<close>

text \<open>
  \<open>sorted(hs, key=..., reverse=True)\<close> is a stable sort in descending order of the key:
  Python reverses the list, sorts it stably in ascending order and reverses the result.
\<close>

definition sorted_reverse :: "('h, 'a) single_hypothesis list \<Rightarrow> ('h, 'a) single_hypothesis list" where
  "sorted_reverse hs = rev (sort_key s_probability (rev hs))"

text \<open>
  The innermost loop: \<open>already_exists\<close> ends up true exactly when some kept hypothesis has
  the same full sequence (\<open>torch.equal\<close> compares shape and entries).
\<close>

definition already_exists ::
  "('h, 'a) single_hypothesis \<Rightarrow> ('h, 'a) single_hypothesis list \<Rightarrow> bool" where
  "already_exists h unique_hypotheses = list_ex (\<lambda>h_uniq. s_full h = s_full h_uniq) unique_hypotheses"

text \<open>The loop over the sorted hypotheses of one input; it breaks once \<open>count\<close> are kept.\<close>

fun unique_loop ::
  "int \<Rightarrow> ('h, 'a) single_hypothesis list \<Rightarrow> ('h, 'a) single_hypothesis list
     \<Rightarrow> ('h, 'a) single_hypothesis list" where
  "unique_loop count [] unique_hypotheses = unique_hypotheses"
| "unique_loop count (h # hs) unique_hypotheses =
     (if int (length unique_hypotheses) \<ge> count then unique_hypotheses
      else if already_exists h unique_hypotheses then unique_loop count hs unique_hypotheses
      else unique_loop count hs (unique_hypotheses @ [h]))"

definition unique_hypotheses ::
  "int \<Rightarrow> ('h, 'a) single_hypothesis list list \<Rightarrow> ('h, 'a) single_hypothesis list list" where
  "unique_hypotheses count by_seq = map (\<lambda>hs. unique_loop count (sorted_reverse hs) []) by_seq"

definition pick_top_k_unique ::
  "('h, 'a) batch_hypothesis list \<Rightarrow> int \<Rightarrow> py_error + ('h, 'a) batch_hypothesis list" where
  "pick_top_k_unique hypotheses count =
     (case unbatch_hypotheses hypotheses of
        Inl e \<Rightarrow> Inl e
      | Inr by_seq \<Rightarrow> batch_single_hypotheses (unique_hypotheses count by_seq))"

subsection \<open>The decode driver \<open>evaluate\<close>\<close>

text \<open>
  \<open>torch.softmax(out, dim=1)\<close> on one row of logits, over the reals (the library
  subtracts the maximum first, which does not change the quotient).
\<close>

definition softmax :: "real list \<Rightarrow> real list" where
  "softmax out = map (\<lambda>x. exp x / sum_list (map exp out)) out"

text \<open>
  \<open>torch.topk(probabilities, beam_width)\<close> on one row: the \<open>k\<close> largest values in
  descending order, each with its index; \<open>RuntimeError\<close> when \<open>k\<close> is negative or exceeds the
  row's length.  The order of equal values is not fixed by the library; the model lists the
  lower index first.
\<close>

definition topk_row :: "real list \<Rightarrow> int \<Rightarrow> py_error + (real \<times> token) list" where
  "topk_row probabilities k =
     (if k < 0 \<or> int (length probabilities) < k then Inl RuntimeError
      else Inr (take (nat k)
        (rev (sort_key fst (rev (zip probabilities (map int [0..<length probabilities])))))))"

text \<open>A comprehension whose elements may raise: the first exception ends it.\<close>

fun collect :: "('e + 'x) list \<Rightarrow> 'e + 'x list" where
  "collect [] = Inr []"
| "collect (r # rs) =
     (case r of
        Inl e \<Rightarrow> Inl e
      | Inr x \<Rightarrow> (case collect rs of Inl e \<Rightarrow> Inl e | Inr xs \<Rightarrow> Inr (x # xs)))"

definition topk :: "real list list \<Rightarrow> int \<Rightarrow> py_error + (real \<times> token) list list" where
  "topk probabilities k = collect (map (\<lambda>row. topk_row row k) probabilities)"

text \<open>
  The decoder is an external collaborator.  \<open>forward\<close> is one call \<open>dec(previous, hidden,
  enc_low_res, enc_high_res)\<close> with the coverage attention \<open>alpha\<close> set from the hypothesis
  before the call and read back after it: it takes the encoder's features, the previous
  tokens, the hidden state and both \<open>alpha\<close>s, and returns the logits (one row per input),
  the next hidden state and the new \<open>alpha\<close>s.  \<open>reset\<close> gives the \<open>alpha\<close>s after
  \<open>dec.reset(curr_batch_size)\<close>.
\<close>

record ('f, 'h, 'a) decoder =
  reset :: "nat \<Rightarrow> 'a list \<times> 'a list"
  init_hidden :: "nat \<Rightarrow> 'h list"
  forward :: "'f \<Rightarrow> token list \<Rightarrow> 'h list \<Rightarrow> 'a list \<Rightarrow> 'a list
                \<Rightarrow> real list list \<times> 'h list \<times> 'a list \<times> 'a list"

text \<open>
  One child: column \<open>c\<close> of the transposed top-k values and ids.  \<open>torch.cat\<close> raises
  \<open>RuntimeError\<close> when the ids do not have one row per row of \<open>curr_sequence\<close>, and so does
  the product of two probability tensors of different lengths (broadcasting a tensor of
  length one is not modelled).
\<close>

definition next_hypothesis ::
  "('h, 'a) batch_hypothesis \<Rightarrow> 'h list \<Rightarrow> 'a list \<Rightarrow> 'a list \<Rightarrow> (real \<times> token) list list
     \<Rightarrow> nat \<Rightarrow> py_error + ('h, 'a) batch_hypothesis" where
  "next_hypothesis hypothesis next_hidden alpha_low alpha_high tops c =
     (let curr_sequence = b_full hypothesis in
      if length tops \<noteq> length curr_sequence \<or> length (b_probability hypothesis) \<noteq> length tops
      then Inl RuntimeError
      else Inr \<lparr> b_full = map2 (\<lambda>row top. row @ [snd (top ! c)]) curr_sequence tops,
                 b_hidden = next_hidden,
                 b_attn_low = alpha_low,
                 b_attn_high = alpha_high,
                 b_probability =
                   map2 (\<lambda>p top. p * fst (top ! c)) (b_probability hypothesis) tops \<rparr>)"

text \<open>
  The body of \<open>for hypothesis in hypotheses\<close>: the children of one hypothesis, in the order
  in which they are appended to \<open>step_hypotheses\<close>.  \<open>curr_sequence[:, -1]\<close> raises
  \<open>IndexError\<close> on sequences of length zero.
\<close>

definition next_hypotheses ::
  "(token list \<Rightarrow> 'h list \<Rightarrow> 'a list \<Rightarrow> 'a list \<Rightarrow> real list list \<times> 'h list \<times> 'a list \<times> 'a list)
     \<Rightarrow> int \<Rightarrow> ('h, 'a) batch_hypothesis \<Rightarrow> py_error + ('h, 'a) batch_hypothesis list" where
  "next_hypotheses dec beam_width hypothesis =
     (let curr_sequence = b_full hypothesis in
      if list_ex (\<lambda>row. row = []) curr_sequence then Inl IndexError
      else
        (case dec (map last curr_sequence) (b_hidden hypothesis)
                (b_attn_low hypothesis) (b_attn_high hypothesis) of
           (out, next_hidden, alpha_low, alpha_high) \<Rightarrow>
             (case topk (map softmax out) beam_width of
                Inl e \<Rightarrow> Inl e
              | Inr tops \<Rightarrow>
                  collect (map (next_hypothesis hypothesis next_hidden alpha_low alpha_high tops)
                             [0..<nat beam_width]))))"

fun step_hypotheses ::
  "(token list \<Rightarrow> 'h list \<Rightarrow> 'a list \<Rightarrow> 'a list \<Rightarrow> real list list \<times> 'h list \<times> 'a list \<times> 'a list)
     \<Rightarrow> int \<Rightarrow> ('h, 'a) batch_hypothesis list \<Rightarrow> py_error + ('h, 'a) batch_hypothesis list" where
  "step_hypotheses dec beam_width [] = Inr []"
| "step_hypotheses dec beam_width (hypothesis # hypotheses) =
     (case next_hypotheses dec beam_width hypothesis of
        Inl e \<Rightarrow> Inl e
      | Inr children \<Rightarrow>
          (case step_hypotheses dec beam_width hypotheses of
             Inl e \<Rightarrow> Inl e
           | Inr others \<Rightarrow> Inr (children @ others)))"

text \<open>The three views of a sequence: a value for each of \<open>full\<close>, \<open>removed\<close>, \<open>symbols\<close>.\<close>

record 'v per_view =
  full :: 'v
  removed :: 'v
  symbols :: 'v

text \<open>
  The names that are not counted as symbols, as listed in the source (\<open>CHR 0x5C\<close> is the
  backslash).
\<close>

definition non_symbols :: "string list" where
  "non_symbols =
     [''{'', ''}'', CHR 0x5C # ''left'', CHR 0x5C # ''right'', ''_'', ''^'',
      CHR 0x5C # ''Big'', CHR 0x5C # ''Bigg'', CHR 0x5C # ''limits'', CHR 0x5C # ''mbox'']"

text \<open>\<open>[token_to_id[tok] for tok in toks]\<close>: a missing key raises \<open>KeyError\<close>.\<close>

definition encode_tokens :: "(string \<rightharpoonup> token) \<Rightarrow> string list \<Rightarrow> py_error + token list" where
  "encode_tokens token_to_id toks =
     collect (map (\<lambda>tok. case token_to_id tok of None \<Rightarrow> Inl KeyError | Some i \<Rightarrow> Inr i) toks)"

text \<open>The body of the last loop: the dictionary \<open>sequence\<close> of one hypothesis with its views.\<close>

definition sequence_views ::
  "token list \<Rightarrow> token list \<Rightarrow> ('h, 'a) batch_hypothesis \<Rightarrow> token list list per_view" where
  "sequence_views special_tokens non_symbols_encoded hypothesis =
     (let removed_seqs = map (\<lambda>seq. remove_special_tokens seq special_tokens False)
                           (b_full hypothesis)
      in \<lparr> full = b_full hypothesis,
            removed = removed_seqs,
            symbols = map (\<lambda>seq. remove_special_tokens seq non_symbols_encoded False)
                        removed_seqs \<rparr>)"

text \<open>
  What the variable \<open>sequence\<close> holds when \<open>evaluate\<close> returns it: the tensor of START
  tokens it is first bound to, or the dictionary of the hypothesis the last loop visited
  last.
\<close>

datatype evaluate_result = Start_tensor "token list list" | Sequence "token list list per_view"

fun last_loop ::
  "token list \<Rightarrow> token list \<Rightarrow> ('h, 'a) batch_hypothesis list \<Rightarrow> evaluate_result
     \<Rightarrow> evaluate_result" where
  "last_loop special_tokens non_symbols_encoded [] sequence = sequence"
| "last_loop special_tokens non_symbols_encoded (hypothesis # hypotheses) sequence =
     last_loop special_tokens non_symbols_encoded hypotheses
       (Sequence (sequence_views special_tokens non_symbols_encoded hypothesis))"

text \<open>
  \<open>torch.utils.data.DataLoader\<close> is an external class whose constructor requires the
  argument \<open>dataset\<close>: called without it, it raises \<open>TypeError\<close>.  \<open>evaluate\<close> reads
  nothing from a loader but \<open>data_loader.dataset.token_to_id\<close>, so a loader is represented
  by that dictionary.
\<close>

definition DataLoader :: "(string \<rightharpoonup> token) option \<Rightarrow> py_error + (string \<rightharpoonup> token)" where
  "DataLoader dataset =
     (case dataset of None \<Rightarrow> Inl TypeError | Some token_to_id \<Rightarrow> Inr token_to_id)"

text \<open>
  The lines of \<open>evaluate\<close> after \<open>data_loader = DataLoader()\<close>, for a given data loader.
  The names \<open>SPECIAL_TOKENS\<close> and \<open>START\<close> come from the module \<open>dataset\<close> and are
  parameters, as is the encoder.  The loop over the steps is commented out in the source,
  so the loop body runs once.  The probability \<open>1.0\<close> of the first hypothesis is a scalar
  that the product broadcasts; the model holds it once per input.
\<close>

definition evaluate_with ::
  "(string \<rightharpoonup> token) \<Rightarrow> string list \<Rightarrow> string \<Rightarrow> ('img list \<Rightarrow> 'f) \<Rightarrow> ('f, 'h, 'a) decoder
     \<Rightarrow> 'img list \<Rightarrow> int \<Rightarrow> py_error + evaluate_result" where
  "evaluate_with token_to_id SPECIAL_TOKENS START enc dec test_img beam_width =
     (case encode_tokens token_to_id SPECIAL_TOKENS of
        Inl e \<Rightarrow> Inl e
      | Inr special_tokens \<Rightarrow>
     (case encode_tokens token_to_id non_symbols of
        Inl e \<Rightarrow> Inl e
      | Inr non_symbols_encoded \<Rightarrow>
     (let curr_batch_size = length test_img;
          enc_res = enc test_img;
          alphas = reset dec curr_batch_size;
          hidden = init_hidden dec curr_batch_size
      in
     (case token_to_id START of
        None \<Rightarrow> Inl KeyError
      | Some start \<Rightarrow>
     (let sequence = replicate curr_batch_size [start];
          hypotheses = [\<lparr> b_full = sequence, b_hidden = hidden,
                           b_attn_low = fst alphas, b_attn_high = snd alphas,
                           b_probability = replicate curr_batch_size 1 \<rparr>]
      in
     (case step_hypotheses (forward dec enc_res) beam_width hypotheses of
        Inl e \<Rightarrow> Inl e
      | Inr step \<Rightarrow>
     (case pick_top_k_unique step beam_width of
        Inl e \<Rightarrow> Inl e
      | Inr hypotheses' \<Rightarrow>
          Inr (last_loop special_tokens non_symbols_encoded hypotheses'
                 (Start_tensor sequence)))))))))"

text \<open>
  \<open>evaluate\<close>: its first statement is \<open>data_loader = DataLoader()\<close>, a call without the
  dataset; the rest of the function reads the vocabulary from that loader.
\<close>

definition evaluate ::
  "string list \<Rightarrow> string \<Rightarrow> ('img list \<Rightarrow> 'f) \<Rightarrow> ('f, 'h, 'a) decoder
     \<Rightarrow> 'img list \<Rightarrow> int \<Rightarrow> py_error + evaluate_result" where
  "evaluate SPECIAL_TOKENS START enc dec test_img beam_width =
     (case DataLoader None of
        Inl e \<Rightarrow> Inl e
      | Inr data_loader \<Rightarrow>
          evaluate_with data_loader SPECIAL_TOKENS START enc dec test_img beam_width)"

subsection \<open>\<open>create_statistics\<close>\<close>

text \<open>
  \<open>editdistance.eval\<close> is the Levenshtein distance of two sequences (an external
  library), written here by its recurrence.
\<close>

fun editdistance_eval :: "token list \<Rightarrow> token list \<Rightarrow> nat" where
  "editdistance_eval [] ex = length ex"
| "editdistance_eval (a # act) [] = Suc (length act)"
| "editdistance_eval (a # act) (e # ex) =
     min (Suc (editdistance_eval act (e # ex)))
       (min (Suc (editdistance_eval (a # act) ex))
            ((if a = e then 0 else 1) + editdistance_eval act ex))"

definition calc_distances :: "token list list \<Rightarrow> token list list \<Rightarrow> nat list" where
  "calc_distances actual expected = map2 editdistance_eval actual expected"

text \<open>\<open>sum([torch.equal(seq, exp) for seq, exp in zip(...)])\<close>: the number of equal pairs.\<close>

definition count_equal :: "token list list \<Rightarrow> token list list \<Rightarrow> int" where
  "count_equal seqs exps = int (length (filter (\<lambda>(seq, ex). seq = ex) (zip seqs exps)))"

text \<open>Python's \<open>/\<close> on two integers: a float, or \<open>ZeroDivisionError\<close>.\<close>

definition py_truediv :: "int \<Rightarrow> int \<Rightarrow> py_error + real" where
  "py_truediv a b = (if b = 0 then Inl ZeroDivisionError else Inr (real_of_int a / real_of_int b))"

text \<open>
  The keys of the dictionary \<open>hypothesis\<close> that \<open>create_statistics\<close> reads, and the keys it
  writes.  The token counts are Python integers (\<open>numel()\<close> and sums of it).  The function
  returns nothing and updates the dictionary in place; the model returns the written keys,
  or the exception (the key \<open>distance\<close>, written before the first division, is then not
  shown).
\<close>

record statistics_input =
  sequence :: "token list list per_view"
  expected :: "token list list per_view"
  num_tokens :: "int per_view"

record statistics =
  distance :: "int per_view"
  error :: "real per_view"
  correct :: "int per_view"
  correct_total :: int
  correct_percent :: "real per_view"

definition create_statistics :: "statistics_input \<Rightarrow> py_error + statistics" where
  "create_statistics hypothesis =
     (let sequence = sequence hypothesis;
          expected = expected hypothesis;
          num_tokens = num_tokens hypothesis;
          distance = \<lparr> full = int (sum_list (calc_distances (full sequence) (full expected))),
                       removed = int (sum_list (calc_distances (removed sequence) (removed expected))),
                       symbols = int (sum_list (calc_distances (symbols sequence) (symbols expected))) \<rparr>;
          correct = \<lparr> full = count_equal (full sequence) (full expected),
                      removed = count_equal (removed sequence) (removed expected),
                      symbols = count_equal (symbols sequence) (symbols expected) \<rparr>;
          total = int (length (full sequence))
      in
     (case py_truediv (full distance) (full num_tokens) of Inl e \<Rightarrow> Inl e | Inr error_full \<Rightarrow>
     (case py_truediv (removed distance) (removed num_tokens) of Inl e \<Rightarrow> Inl e | Inr error_removed \<Rightarrow>
     (case py_truediv (symbols distance) (symbols num_tokens) of Inl e \<Rightarrow> Inl e | Inr error_symbols \<Rightarrow>
     (case py_truediv (full correct) total of Inl e \<Rightarrow> Inl e | Inr percent_full \<Rightarrow>
     (case py_truediv (removed correct) total of Inl e \<Rightarrow> Inl e | Inr percent_removed \<Rightarrow>
     (case py_truediv (symbols correct) total of Inl e \<Rightarrow> Inl e | Inr percent_symbols \<Rightarrow>
        Inr \<lparr> distance = distance,
              error = \<lparr> full = error_full, removed = error_removed, symbols = error_symbols \<rparr>,
              correct = correct,
              correct_total = total,
              correct_percent = \<lparr> full = percent_full, removed = percent_removed,
                                  symbols = percent_symbols \<rparr> \<rparr>)))))))"

subsection \<open>\<open>to_percent\<close> and \<open>create_markdown_tables\<close>\<close>






text \<open>The row template \<open>"| {} | {} | {} | {} |"\<close> of both tables.\<close>

definition markdown_row :: "string \<Rightarrow> string \<Rightarrow> string \<Rightarrow> string \<Rightarrow> string" where
  "markdown_row model_cell token_cell no_special_cell symbol_cell =
     ''| '' @ model_cell @ '' | '' @ token_cell @ '' | '' @ no_special_cell
       @ '' | '' @ symbol_cell @ '' |''"








subsection \<open>Example inputs\<close>

text \<open>
  Candidates of a batch with a single input: the sequence \<open>[0, tok]\<close> with probability
  \<open>p\<close>; the hidden and attention values only record the parent the candidate came from.
\<close>

definition candidate :: "token \<Rightarrow> nat \<Rightarrow> real \<Rightarrow> (nat, nat) batch_hypothesis" where
  "candidate tok parent p =
     \<lparr> b_full = [[0, tok]], b_hidden = [parent], b_attn_low = [parent],
       b_attn_high = [parent], b_probability = [p] \<rparr>"

definition single_candidate :: "token \<Rightarrow> nat \<Rightarrow> real \<Rightarrow> (nat, nat) single_hypothesis" where
  "single_candidate tok parent p =
     \<lparr> s_full = [0, tok], s_hidden = parent, s_attn_low = parent, s_attn_high = parent,
       s_probability = p \<rparr>"

text \<open>
  Four candidates of one input, two of them with the same sequence \<open>[0, 3]\<close> and the
  probabilities \<open>3/10\<close> and \<open>5/10\<close>.
\<close>

definition four_candidates :: "(nat, nat) batch_hypothesis list" where
  "four_candidates =
     [candidate 3 1 (3/10), candidate 1 1 (9/10), candidate 3 2 (5/10), candidate 2 2 (8/10)]"

definition four_by_seq :: "(nat, nat) single_hypothesis list list" where
  "four_by_seq =
     [[single_candidate 3 1 (3/10), single_candidate 1 1 (9/10),
       single_candidate 3 2 (5/10), single_candidate 2 2 (8/10)]]"

definition three_survivors :: "(nat, nat) batch_hypothesis list" where
  "three_survivors = [candidate 1 1 (9/10), candidate 2 2 (8/10), candidate 3 2 (5/10)]"

text \<open>Survivor lists of two inputs, of lengths two and one.\<close>

definition unequal_survivors :: "(nat, nat) single_hypothesis list list" where
  "unequal_survivors =
     [[single_candidate 1 1 (9/10), single_candidate 2 2 (8/10)],
      [single_candidate 3 1 (3/10)]]"

text \<open>
  A decoder for a vocabulary of fourteen tokens whose logits do not depend on its
  arguments: after the softmax, token \<open>12\<close> has probability \<open>3/17\<close>, token \<open>13\<close> has
  \<open>2/17\<close> and every other token \<open>1/17\<close>.  Its hidden state counts the calls.
\<close>

definition example_logits :: "real list" where
  "example_logits = [0, 0, 0, 0, 0, 0, 0, 0, 0, 0, 0, 0, ln 3, ln 2]"

definition example_forward ::
  "unit \<Rightarrow> token list \<Rightarrow> nat list \<Rightarrow> nat list \<Rightarrow> nat list
     \<Rightarrow> real list list \<times> nat list \<times> nat list \<times> nat list" where
  "example_forward enc_res previous hidden alpha_low alpha_high =
     (map (\<lambda>tok. example_logits) previous, map Suc hidden, alpha_low, alpha_high)"

definition example_decoder :: "(unit, nat, nat) decoder" where
  "example_decoder =
     \<lparr> reset = (\<lambda>n. (replicate n 0, replicate n 0)),
       init_hidden = (\<lambda>n. replicate n 0),
       forward = example_forward \<rparr>"

definition example_start :: "(nat, nat) batch_hypothesis" where
  "example_start =
     \<lparr> b_full = [[0]], b_hidden = [0], b_attn_low = [0], b_attn_high = [0],
       b_probability = [1] \<rparr>"

definition example_child :: "token \<Rightarrow> real \<Rightarrow> (nat, nat) batch_hypothesis" where
  "example_child tok p =
     \<lparr> b_full = [[0, tok]], b_hidden = [1], b_attn_low = [0], b_attn_high = [0],
       b_probability = [p] \<rparr>"

text \<open>
  A vocabulary with the START and PAD tokens first, then the ten names of
  \<open>non_symbols\<close>, then two symbols.
\<close>

definition example_token_to_id :: "string \<rightharpoonup> token" where
  "example_token_to_id =
     map_of [(''<SOS>'', 0), (''<PAD>'', 1), (''{'', 2), (''}'', 3),
             (CHR 0x5C # ''left'', 4), (CHR 0x5C # ''right'', 5), (''_'', 6), (''^'', 7),
             (CHR 0x5C # ''Big'', 8), (CHR 0x5C # ''Bigg'', 9), (CHR 0x5C # ''limits'', 10),
             (CHR 0x5C # ''mbox'', 11), (''x'', 12), (''y'', 13)]"




text \<open>A batch of one expression whose expected sequence has no symbol.\<close>

definition no_symbols_input :: statistics_input where
  "no_symbols_input =
     \<lparr> sequence = \<lparr> full = [[0, 2, 3]], removed = [[2, 3]], symbols = [[]] \<rparr>,
       expected = \<lparr> full = [[0, 2, 3]], removed = [[2, 3]], symbols = [[]] \<rparr>,
       num_tokens = \<lparr> full = 3, removed = 2, symbols = 0 \<rparr> \<rparr>"


section \<open>Properties\<close>

subsection \<open>Stripping special tokens at the ends\<close>

lemma num_left_no_special:
  "list_all (\<lambda>tok. tok \<notin> set special_tokens) tokens \<Longrightarrow> num_left tokens special_tokens = 0"
  by (cases tokens) simp_all

lemma num_right_no_special:
  "list_all (\<lambda>tok. tok \<notin> set special_tokens) tokens \<Longrightarrow> num_right tokens special_tokens = 0"
  unfolding num_right_def by (rule num_left_no_special) (simp add: list_all_iff)

lemma strip_only_no_special_empty:
  "list_all (\<lambda>tok. tok \<notin> set special_tokens) tokens \<Longrightarrow>
     remove_special_tokens tokens special_tokens True = []"
  by (simp add: remove_special_tokens_def slice_to_neg_def num_right_no_special)

text \<open>
  Claim C2.  A sequence without any special token should come back unchanged from
  \<open>remove_special_tokens\<close> with \<open>strip_only=True\<close>, as the comment above the function
  promises (``Equivalent to String.strip()'').  The code does not do that: with no special
  token at the right end \<open>num_right\<close> is \<open>0\<close>, the slice \<open>tokens[num_left:-0]\<close> is
  \<open>tokens[num_left:0]\<close>, and the result is empty.  Here the tokens \<open>[2, 3]\<close> with the
  special tokens \<open>[0, 1]\<close>.
\<close>

theorem strip_only_drops_clean_sequence:
  "remove_special_tokens [2, 3] [0, 1] True = [] \<and>
   remove_special_tokens [2, 3] [0, 1] True \<noteq> [2, 3]"
  by (simp add: remove_special_tokens_def slice_to_neg_def num_right_def)

subsection \<open>Unbatching\<close>

text \<open>
  Claim C10.  \<open>unbatch_hypotheses\<close> applied to an empty list of batched hypotheses returns
  an empty list: the guard \<open>if not hypotheses\<close> returns before \<open>hypotheses[0]\<close> is read,
  so no \<open>IndexError\<close> is raised.
\<close>

theorem unbatch_hypotheses_empty:
  "unbatch_hypotheses ([] :: ('h, 'a) batch_hypothesis list) = Inr []"
  by (simp add: unbatch_hypotheses_def)

subsection \<open>Re-batching\<close>

lemma batch_h_fields:
  assumes "batch_h U i = Inr b"
  shows "b_full b = map (\<lambda>hs. s_full (hs ! i)) U"
    and "b_hidden b = map (\<lambda>hs. s_hidden (hs ! i)) U"
    and "b_attn_low b = map (\<lambda>hs. s_attn_low (hs ! i)) U"
    and "b_attn_high b = map (\<lambda>hs. s_attn_high (hs ! i)) U"
    and "b_probability b = map (\<lambda>hs. s_probability (hs ! i)) U"
  using assms
  by (auto simp: batch_h_def stack_tokens_def split: sum.splits list.splits if_splits)

lemma single_h_batch_h:
  assumes "batch_h U i = Inr b" and "j < length U"
  shows "single_h b j = Inr (U ! j ! i)"
  using assms(2) by (simp add: single_h_def batch_h_fields[OF assms(1)])

lemma batch_loop_Inr:
  "batch_loop U is = Inr bs \<Longrightarrow>
     length bs = length is \<and> (\<forall>k<length is. batch_h U (is ! k) = Inr (bs ! k))"
proof (induction "is" arbitrary: bs)
  case Nil
  then show ?case by simp
next
  case (Cons i "is")
  then obtain b bs' where b: "batch_h U i = Inr b" and bs': "batch_loop U is = Inr bs'"
    and bs: "bs = b # bs'"
    by (auto split: sum.splits)
  from Cons.IH[OF bs'] b bs show ?case
    by (auto simp: nth_Cons split: nat.splits)
qed

lemma stack_tokens_same_length:
  "ts \<noteq> [] \<Longrightarrow> \<forall>t\<in>set ts. length t = n \<Longrightarrow> stack_tokens ts = Inr ts"
  by (cases ts) (auto simp: stack_tokens_def list_all_iff)

lemma batch_h_total:
  assumes "U \<noteq> []" and "\<forall>hs\<in>set U. i < length hs"
    and "\<forall>hs\<in>set U. \<forall>h\<in>set hs. length (s_full h) = n"
  shows "\<exists>b. batch_h U i = Inr b"
proof -
  have "stack_tokens (map (\<lambda>hs. s_full (hs ! i)) U) = Inr (map (\<lambda>hs. s_full (hs ! i)) U)"
    using assms by (intro stack_tokens_same_length[where n = n]) auto
  then show ?thesis by (simp add: batch_h_def)
qed

lemma batch_loop_total:
  "\<forall>i\<in>set is. \<exists>b. batch_h U i = Inr b \<Longrightarrow> \<exists>bs. batch_loop U is = Inr bs"
  by (induction "is") auto

lemma min_list_le: "x \<in> set xs \<Longrightarrow> min_list xs \<le> (x::nat)"
  using min_list_Min[of xs] by (cases "xs = []") auto

lemma batch_single_total:
  assumes "U \<noteq> []" and "\<forall>hs\<in>set U. \<forall>h\<in>set hs. length (s_full h) = n"
  shows "\<exists>beam. batch_single_hypotheses U = Inr beam"
proof -
  have "\<exists>b. batch_h U i = Inr b" if "i < min_list (map length U)" for i
  proof (rule batch_h_total[OF assms(1) _ assms(2)])
    show "\<forall>hs\<in>set U. i < length hs"
    proof
      fix hs assume "hs \<in> set U"
      then have "min_list (map length U) \<le> length hs" by (intro min_list_le) simp
      with that show "i < length hs" by simp
    qed
  qed
  then have "\<exists>bs. batch_loop U [0..<min_list (map length U)] = Inr bs"
    by (intro batch_loop_total) simp
  with assms(1) show ?thesis by (simp add: batch_single_hypotheses_def)
qed

lemma batch_single_Inr:
  assumes "batch_single_hypotheses U = Inr beam"
  shows "U \<noteq> []" and "length beam = min_list (map length U)"
    and "\<And>i. i < length beam \<Longrightarrow> batch_h U i = Inr (beam ! i)"
proof -
  show ne: "U \<noteq> []" using assms by (auto simp: batch_single_hypotheses_def split: if_splits)
  then have loop: "batch_loop U [0..<min_list (map length U)] = Inr beam"
    using assms by (simp add: batch_single_hypotheses_def)
  from batch_loop_Inr[OF loop] show "length beam = min_list (map length U)" by simp
  fix i assume "i < length beam"
  with batch_loop_Inr[OF loop] show "batch_h U i = Inr (beam ! i)" by auto
qed

lemma batch_single_retained:
  assumes "batch_single_hypotheses U = Inr beam" and "j < length U"
  shows "map (\<lambda>b. single_h b j) beam = map Inr (take (length beam) (U ! j))"
proof (rule nth_equalityI)
  have le: "length beam \<le> length (U ! j)"
    using batch_single_Inr(2)[OF assms(1)] assms(2) by (simp add: min_list_le)
  then show "length (map (\<lambda>b. single_h b j) beam) = length (map Inr (take (length beam) (U ! j)))"
    by simp
  fix i assume "i < length (map (\<lambda>b. single_h b j) beam)"
  then have i: "i < length beam" by simp
  from single_h_batch_h[OF batch_single_Inr(3)[OF assms(1) i] assms(2)] i le
  show "map (\<lambda>b. single_h b j) beam ! i = map Inr (take (length beam) (U ! j)) ! i"
    by simp
qed

lemma batch_single_width:
  assumes "batch_single_hypotheses U = Inr beam" and "b \<in> set beam"
  shows "length (b_probability b) = length U" and "length (b_full b) = length U"
proof -
  from assms(2) obtain i where "i < length beam" "b = beam ! i"
    by (auto simp: in_set_conv_nth)
  with batch_single_Inr(3)[OF assms(1)] have "batch_h U i = Inr b" by simp
  from batch_h_fields[OF this]
  show "length (b_probability b) = length U" and "length (b_full b) = length U" by simp_all
qed

text \<open>
  Claim C5.  When the lists of unique survivors of the inputs have different lengths,
  \<open>batch_single_hypotheses\<close> cuts every list to the shortest length \<open>min_len\<close>: every
  beam it returns has exactly \<open>min_len\<close> batched hypotheses, each with one entry per
  input, and what the beam holds for input \<open>j\<close> is the first \<open>min_len\<close> survivors of
  that input, in order.  It does return a beam for lists that are not empty and hold
  sequences of one length (what \<open>torch.stack\<close> needs).
\<close>

theorem batch_single_hypotheses_truncates_to_min:
  "(single_hypotheses \<noteq> []
      \<and> (\<forall>hs\<in>set single_hypotheses. \<forall>h\<in>set hs. length (s_full h) = n)
      \<longrightarrow> (\<exists>beam. batch_single_hypotheses single_hypotheses = Inr beam))
   \<and> (\<forall>beam. batch_single_hypotheses single_hypotheses = Inr beam \<longrightarrow>
          length beam = min_list (map length single_hypotheses)
        \<and> (\<forall>b\<in>set beam. length (b_probability b) = length single_hypotheses)
        \<and> (\<forall>j<length single_hypotheses.
              map (\<lambda>b. single_h b j) beam
                = map Inr (take (length beam) (single_hypotheses ! j))))"
proof (intro conjI allI impI)
  assume "single_hypotheses \<noteq> []
            \<and> (\<forall>hs\<in>set single_hypotheses. \<forall>h\<in>set hs. length (s_full h) = n)"
  then show "\<exists>beam. batch_single_hypotheses single_hypotheses = Inr beam"
    using batch_single_total[of single_hypotheses n] by blast
next
  fix beam assume b: "batch_single_hypotheses single_hypotheses = Inr beam"
  show "length beam = min_list (map length single_hypotheses)"
    by (rule batch_single_Inr(2)[OF b])
  show "\<forall>b\<in>set beam. length (b_probability b) = length single_hypotheses"
    using batch_single_width(1)[OF b] by blast
  fix j assume "j < length single_hypotheses"
  then show "map (\<lambda>b. single_h b j) beam
               = map Inr (take (length beam) (single_hypotheses ! j))"
    by (rule batch_single_retained[OF b])
qed

theorem batch_single_hypotheses_truncates_witness:
  "batch_single_hypotheses unequal_survivors
     = Inr [\<lparr> b_full = [[0, 1], [0, 3]], b_hidden = [1, 1], b_attn_low = [1, 1],
              b_attn_high = [1, 1], b_probability = [9/10, 3/10] \<rparr>]
   \<and> map length unequal_survivors = [2, 1]
   \<and> min_list (map length unequal_survivors) = 1
   \<and> single_h \<lparr> b_full = [[0, 1], [0, 3]], b_hidden = [1, 1], b_attn_low = [1, 1],
                 b_attn_high = [1, 1], b_probability = [9/10, 3/10] \<rparr> 0
       = Inr (single_candidate 1 1 (9/10))"
proof -
  have ne: "unequal_survivors \<noteq> []
              \<and> (\<forall>hs\<in>set unequal_survivors. \<forall>h\<in>set hs. length (s_full h) = 2)"
    by (simp add: unequal_survivors_def single_candidate_def)
  have beam: "batch_single_hypotheses unequal_survivors
     = Inr [\<lparr> b_full = [[0, 1], [0, 3]], b_hidden = [1, 1], b_attn_low = [1, 1],
              b_attn_high = [1, 1], b_probability = [9/10, 3/10] \<rparr>]"
    by (simp add: unequal_survivors_def single_candidate_def batch_single_hypotheses_def
        batch_h_def stack_tokens_def)
  from batch_single_hypotheses_truncates_to_min[of unequal_survivors 2] ne beam
  show ?thesis
    by (simp add: unequal_survivors_def single_candidate_def single_h_def)
qed

subsection \<open>Deduplication and pruning\<close>

lemma unbatch_inner_length:
  "unbatch_inner h is by_seq = Inr by_seq' \<Longrightarrow> length by_seq' = length by_seq"
  by (induction "is" arbitrary: by_seq) (auto split: sum.splits if_splits)

lemma unbatch_outer_length:
  "unbatch_outer hs by_seq = Inr by_seq' \<Longrightarrow> length by_seq' = length by_seq"
  by (induction hs arbitrary: by_seq) (auto split: sum.splits dest: unbatch_inner_length)

lemma unbatch_hypotheses_length:
  "unbatch_hypotheses (h0 # rest) = Inr by_seq \<Longrightarrow> length by_seq = length (b_probability h0)"
  by (auto simp: unbatch_hypotheses_def dest: unbatch_outer_length simp del: unbatch_outer.simps)

lemma unique_loop_prefix:
  "\<exists>ys. unique_loop count hs uniq = uniq @ ys \<and> set ys \<subseteq> set hs"
proof (induction hs arbitrary: uniq)
  case Nil
  then show ?case by simp
next
  case (Cons h hs)
  from Cons.IH[of uniq] Cons.IH[of "uniq @ [h]"] show ?case by auto
qed

lemma unique_loop_keeps: "set uniq \<subseteq> set (unique_loop count hs uniq)"
  using unique_loop_prefix[of count hs uniq] by auto

lemma unique_loop_subset: "set (unique_loop count hs uniq) \<subseteq> set uniq \<union> set hs"
  using unique_loop_prefix[of count hs uniq] by auto

lemma unique_loop_distinct:
  "distinct (map s_full uniq) \<Longrightarrow> distinct (map s_full (unique_loop count hs uniq))"
proof (induction hs arbitrary: uniq)
  case Nil
  then show ?case by simp
next
  case (Cons h hs)
  have "distinct (map s_full (uniq @ [h]))" if "\<not> already_exists h uniq"
    using that Cons.prems by (auto simp: already_exists_def list_ex_iff)
  with Cons show ?case by simp
qed

lemma distinct_full_eq:
  "distinct (map s_full xs) \<Longrightarrow> x \<in> set xs \<Longrightarrow> y \<in> set xs \<Longrightarrow> s_full x = s_full y \<Longrightarrow> x = y"
  by (meson distinct_map inj_onD)

lemma unique_loop_best:
  assumes "distinct (map s_full uniq)"
    and "sorted_wrt (\<lambda>a b. s_probability b \<le> s_probability a) hs"
    and "\<forall>u\<in>set uniq. \<forall>h\<in>set hs. s_probability h \<le> s_probability u"
    and "r \<in> set (unique_loop count hs uniq)"
    and "c \<in> set uniq \<union> set hs"
    and "s_full c = s_full r"
  shows "s_probability c \<le> s_probability r"
  using assms
proof (induction hs arbitrary: uniq)
  case Nil
  then show ?case by (auto dest: distinct_full_eq)
next
  case (Cons h hs)
  have dR: "distinct (map s_full (unique_loop count (h # hs) uniq))"
    by (rule unique_loop_distinct[OF Cons.prems(1)])
  have sorted_tl: "sorted_wrt (\<lambda>a b. s_probability b \<le> s_probability a) hs"
    and h_top: "\<forall>h'\<in>set hs. s_probability h' \<le> s_probability h"
    using Cons.prems(2) by auto
  have below: "\<forall>u\<in>set uniq. \<forall>h\<in>set hs. s_probability h \<le> s_probability u"
    using Cons.prems(3) by auto
  show ?case
  proof (cases "count \<le> int (length uniq)")
    case True
    then have "r \<in> set uniq" using Cons.prems(4) by simp
    with Cons.prems show ?thesis by (auto dest: distinct_full_eq)
  next
    case False
    show ?thesis
    proof (cases "already_exists h uniq")
      case True
      with False have R: "unique_loop count (h # hs) uniq = unique_loop count hs uniq" by simp
      show ?thesis
      proof (cases "c = h")
        case ch: True
        from True obtain u where u: "u \<in> set uniq" "s_full h = s_full u"
          by (auto simp: already_exists_def list_ex_iff)
        have "u \<in> set (unique_loop count (h # hs) uniq)"
          using u(1) unique_loop_keeps by blast
        with dR Cons.prems(4) have "r = u"
          using u(2) ch Cons.prems(6) by (auto dest: distinct_full_eq)
        with u(1) Cons.prems(3) ch show ?thesis by auto
      next
        case False
        with Cons.prems(5) have "c \<in> set uniq \<union> set hs" by auto
        from Cons.IH[OF Cons.prems(1) sorted_tl below _ this Cons.prems(6)] Cons.prems(4) R
        show ?thesis by simp
      qed
    next
      case nex: False
      with False have R: "unique_loop count (h # hs) uniq = unique_loop count hs (uniq @ [h])"
        by simp
      have d: "distinct (map s_full (uniq @ [h]))"
        using Cons.prems(1) nex by (auto simp: already_exists_def list_ex_iff)
      have b: "\<forall>u\<in>set (uniq @ [h]). \<forall>h'\<in>set hs. s_probability h' \<le> s_probability u"
        using below h_top by auto
      have c: "c \<in> set (uniq @ [h]) \<union> set hs" using Cons.prems(5) by auto
      from Cons.IH[OF d sorted_tl b _ c Cons.prems(6)] Cons.prems(4) R
      show ?thesis by simp
    qed
  qed
qed

lemma unique_loop_covers:
  "int (length (unique_loop count hs uniq)) < count \<Longrightarrow> h \<in> set hs \<Longrightarrow>
     \<exists>r\<in>set (unique_loop count hs uniq). s_full r = s_full h"
proof (induction hs arbitrary: uniq)
  case Nil
  then show ?case by simp
next
  case (Cons h' hs)
  show ?case
  proof (cases "count \<le> int (length uniq)")
    case True
    with Cons.prems(1) show ?thesis by simp
  next
    case False
    show ?thesis
    proof (cases "already_exists h' uniq")
      case True
      with False have R: "unique_loop count (h' # hs) uniq = unique_loop count hs uniq" by simp
      show ?thesis
      proof (cases "h = h'")
        case True
        from \<open>already_exists h' uniq\<close> obtain u where u: "u \<in> set uniq" "s_full h' = s_full u"
          by (auto simp: already_exists_def list_ex_iff)
        have "u \<in> set (unique_loop count hs uniq)"
          using u(1) unique_loop_keeps[of uniq count hs] by blast
        with True u(2) R show ?thesis by (intro bexI[of _ u]) simp_all
      next
        case False
        with Cons.prems(2) have "h \<in> set hs" by simp
        from Cons.IH[OF _ this, of uniq] Cons.prems(1) R show ?thesis by simp
      qed
    next
      case nex: False
      with False have R: "unique_loop count (h' # hs) uniq = unique_loop count hs (uniq @ [h'])"
        by simp
      show ?thesis
      proof (cases "h = h'")
        case True
        have "h' \<in> set (unique_loop count hs (uniq @ [h']))"
          using unique_loop_keeps[of "uniq @ [h']" count hs] by auto
        with True R show ?thesis by (intro bexI[of _ h']) simp_all
      next
        case False
        with Cons.prems(2) have "h \<in> set hs" by simp
        from Cons.IH[OF _ this, of "uniq @ [h']"] Cons.prems(1) R show ?thesis by simp
      qed
    qed
  qed
qed

lemma set_sorted_reverse: "set (sorted_reverse hs) = set hs"
  by (simp add: sorted_reverse_def)

lemma sorted_sorted_reverse:
  "sorted_wrt (\<lambda>a b. s_probability b \<le> s_probability a) (sorted_reverse hs)"
proof -
  have "sorted (map s_probability (sort_key s_probability (rev hs)))"
    by (rule sorted_sort_key)
  then have "sorted_wrt (\<lambda>a b. s_probability a \<le> s_probability b) (sort_key s_probability (rev hs))"
    by (simp add: sorted_wrt_map)
  then show ?thesis
    by (simp add: sorted_reverse_def sorted_wrt_rev)
qed

lemma unique_hypotheses_nth:
  "j < length by_seq \<Longrightarrow>
     unique_hypotheses count by_seq ! j = unique_loop count (sorted_reverse (by_seq ! j)) []"
  by (simp add: unique_hypotheses_def)

lemma length_unique_hypotheses: "length (unique_hypotheses count by_seq) = length by_seq"
  by (simp add: unique_hypotheses_def)

lemma unique_hypotheses_distinct:
  "j < length by_seq \<Longrightarrow> distinct (map s_full (unique_hypotheses count by_seq ! j))"
  by (simp add: unique_hypotheses_nth unique_loop_distinct)

lemma unique_hypotheses_best:
  assumes "j < length by_seq" and "r \<in> set (unique_hypotheses count by_seq ! j)"
    and "c \<in> set (by_seq ! j)" and "s_full c = s_full r"
  shows "s_probability c \<le> s_probability r"
proof (rule unique_loop_best[where uniq = "[]" and hs = "sorted_reverse (by_seq ! j)" and count = count])
  show "r \<in> set (unique_loop count (sorted_reverse (by_seq ! j)) [])"
    using assms(1,2) by (simp add: unique_hypotheses_nth)
  show "c \<in> set [] \<union> set (sorted_reverse (by_seq ! j))"
    using assms(3) by (simp add: set_sorted_reverse)
qed (simp_all add: sorted_sorted_reverse assms(4))

lemma unique_hypotheses_covers:
  assumes "j < length by_seq" and "int (length (unique_hypotheses count by_seq ! j)) < count"
    and "h \<in> set (by_seq ! j)"
  shows "\<exists>r\<in>set (unique_hypotheses count by_seq ! j). s_full r = s_full h"
  using unique_loop_covers[of count "sorted_reverse (by_seq ! j)" "[]" h] assms
  by (simp add: unique_hypotheses_nth set_sorted_reverse)

lemma single_h_Inr_fields:
  "single_h b j = Inr s \<Longrightarrow> b_full b ! j = s_full s \<and> b_probability b ! j = s_probability s"
  by (auto simp: single_h_def split: if_splits)

lemma pick_top_k_unique_retained:
  assumes "unbatch_hypotheses hypotheses = Inr by_seq"
    and "pick_top_k_unique hypotheses count = Inr beam" and "j < length by_seq"
  shows "map (\<lambda>b. single_h b j) beam
           = map Inr (take (length beam) (unique_hypotheses count by_seq ! j))"
    and "length beam \<le> length (unique_hypotheses count by_seq ! j)"
proof -
  have bs: "batch_single_hypotheses (unique_hypotheses count by_seq) = Inr beam"
    using assms(1,2) by (simp add: pick_top_k_unique_def)
  have j: "j < length (unique_hypotheses count by_seq)"
    using assms(3) by (simp add: length_unique_hypotheses)
  show "map (\<lambda>b. single_h b j) beam
           = map Inr (take (length beam) (unique_hypotheses count by_seq ! j))"
    by (rule batch_single_retained[OF bs j])
  show "length beam \<le> length (unique_hypotheses count by_seq ! j)"
    using batch_single_Inr(2)[OF bs] j by (simp add: min_list_le)
qed

lemma pick_top_k_unique_member:
  assumes "unbatch_hypotheses hypotheses = Inr by_seq"
    and "pick_top_k_unique hypotheses count = Inr beam" and "j < length by_seq"
    and "b \<in> set beam"
  shows "\<exists>r\<in>set (unique_hypotheses count by_seq ! j). single_h b j = Inr r"
proof -
  from assms(4) obtain i where i: "i < length beam" "b = beam ! i"
    by (auto simp: in_set_conv_nth)
  let ?U = "unique_hypotheses count by_seq ! j"
  have "map (\<lambda>b. single_h b j) beam ! i = map Inr (take (length beam) ?U) ! i"
    using pick_top_k_unique_retained(1)[OF assms(1-3)] by simp
  moreover have "i < length ?U"
    using i(1) pick_top_k_unique_retained(2)[OF assms(1-3)] by simp
  ultimately have "single_h b j = Inr (?U ! i)" "?U ! i \<in> set ?U"
    using i by simp_all
  then show ?thesis by blast
qed

lemma pick_top_k_unique_fulls:
  assumes "unbatch_hypotheses hypotheses = Inr by_seq"
    and "pick_top_k_unique hypotheses count = Inr beam" and "j < length by_seq"
  shows "map (\<lambda>b. b_full b ! j) beam
           = take (length beam) (map s_full (unique_hypotheses count by_seq ! j))"
proof (rule nth_equalityI)
  let ?U = "unique_hypotheses count by_seq ! j"
  note le = pick_top_k_unique_retained(2)[OF assms]
  show "length (map (\<lambda>b. b_full b ! j) beam) = length (take (length beam) (map s_full ?U))"
    using le by simp
  fix i assume "i < length (map (\<lambda>b. b_full b ! j) beam)"
  then have i: "i < length beam" by simp
  have "map (\<lambda>b. single_h b j) beam ! i = map Inr (take (length beam) ?U) ! i"
    using pick_top_k_unique_retained(1)[OF assms] by simp
  then have "single_h (beam ! i) j = Inr (?U ! i)" using i le by simp
  from single_h_Inr_fields[OF this] i le
  show "map (\<lambda>b. b_full b ! j) beam ! i = take (length beam) (map s_full ?U) ! i"
    by simp
qed

lemma unique_loop_sorted:
  assumes "sorted_wrt (\<lambda>a b. s_probability b \<le> s_probability a) hs"
    and "sorted_wrt (\<lambda>a b. s_probability b \<le> s_probability a) uniq"
    and "\<forall>u\<in>set uniq. \<forall>h\<in>set hs. s_probability h \<le> s_probability u"
  shows "sorted_wrt (\<lambda>a b. s_probability b \<le> s_probability a) (unique_loop count hs uniq)"
  using assms
proof (induction hs arbitrary: uniq)
  case Nil
  then show ?case by simp
next
  case (Cons h hs)
  have tl: "sorted_wrt (\<lambda>a b. s_probability b \<le> s_probability a) hs"
    and top: "\<forall>h'\<in>set hs. s_probability h' \<le> s_probability h"
    using Cons.prems(1) by auto
  have below: "\<forall>u\<in>set uniq. \<forall>h'\<in>set hs. s_probability h' \<le> s_probability u"
    using Cons.prems(3) by auto
  have ext: "sorted_wrt (\<lambda>a b. s_probability b \<le> s_probability a) (uniq @ [h])"
    using Cons.prems(2,3) by (auto simp: sorted_wrt_append)
  have below': "\<forall>u\<in>set (uniq @ [h]). \<forall>h'\<in>set hs. s_probability h' \<le> s_probability u"
    using below top by auto
  from Cons.IH[OF tl Cons.prems(2) below] Cons.IH[OF tl ext below'] Cons.prems(2)
  show ?case by simp
qed

text \<open>A candidate whose sequence is not kept is no more probable than any kept one.\<close>

lemma unique_loop_dropped_below:
  assumes "sorted_wrt (\<lambda>a b. s_probability b \<le> s_probability a) hs"
    and "\<forall>u\<in>set uniq. \<forall>h\<in>set hs. s_probability h \<le> s_probability u"
    and "h \<in> set hs"
    and "s_full h \<notin> s_full ` set (unique_loop count hs uniq)"
    and "r \<in> set (unique_loop count hs uniq)"
  shows "s_probability h \<le> s_probability r"
  using assms
proof (induction hs arbitrary: uniq)
  case Nil
  then show ?case by simp
next
  case (Cons x xs)
  have tl: "sorted_wrt (\<lambda>a b. s_probability b \<le> s_probability a) xs"
    and top: "\<forall>h'\<in>set xs. s_probability h' \<le> s_probability x"
    using Cons.prems(1) by auto
  have below: "\<forall>u\<in>set uniq. \<forall>h'\<in>set xs. s_probability h' \<le> s_probability u"
    using Cons.prems(2) by auto
  show ?case
  proof (cases "count \<le> int (length uniq)")
    case True
    with Cons.prems(5) have "r \<in> set uniq" by simp
    with Cons.prems(2,3) show ?thesis by blast
  next
    case False
    show ?thesis
    proof (cases "already_exists x uniq")
      case True
      with False have R: "unique_loop count (x # xs) uniq = unique_loop count xs uniq" by simp
      have "h \<noteq> x"
      proof
        assume "h = x"
        with True obtain u where "u \<in> set uniq" "s_full h = s_full u"
          by (auto simp: already_exists_def list_ex_iff)
        with unique_loop_keeps[of uniq count "x # xs"] Cons.prems(4) show False by blast
      qed
      with Cons.prems(3) have "h \<in> set xs" by simp
      from Cons.IH[OF tl below this] Cons.prems(4,5) R show ?thesis by simp
    next
      case nex: False
      with False have R: "unique_loop count (x # xs) uniq = unique_loop count xs (uniq @ [x])"
        by simp
      have "h \<noteq> x"
      proof
        assume "h = x"
        moreover have "x \<in> set (unique_loop count xs (uniq @ [x]))"
          using unique_loop_keeps[of "uniq @ [x]" count xs] by auto
        ultimately show False using Cons.prems(4) R by force
      qed
      with Cons.prems(3) have hx: "h \<in> set xs" by simp
      have below': "\<forall>u\<in>set (uniq @ [x]). \<forall>h'\<in>set xs. s_probability h' \<le> s_probability u"
        using below top by auto
      from Cons.IH[OF tl below' hx] Cons.prems(4,5) R show ?thesis by simp
    qed
  qed
qed

text \<open>How many hypotheses the loop keeps.\<close>

lemma unique_loop_length:
  assumes "distinct (map s_full uniq)"
  shows "length (unique_loop count hs uniq) =
           (if count \<le> int (length uniq) then length uniq
            else min (nat count) (length uniq + card (s_full ` set hs - s_full ` set uniq)))"
  using assms
proof (induction hs arbitrary: uniq)
  case Nil
  then show ?case by simp
next
  case (Cons x xs)
  show ?case
  proof (cases "count \<le> int (length uniq)")
    case True
    then show ?thesis by simp
  next
    case False
    show ?thesis
    proof (cases "already_exists x uniq")
      case True
      then have "s_full x \<in> s_full ` set uniq"
        by (auto simp: already_exists_def list_ex_iff)
      then have "s_full ` set (x # xs) - s_full ` set uniq = s_full ` set xs - s_full ` set uniq"
        by auto
      with Cons.IH[OF Cons.prems] False True show ?thesis by simp
    next
      case nex: False
      then have new: "s_full x \<notin> s_full ` set uniq"
        by (auto simp: already_exists_def list_ex_iff)
      then have d: "distinct (map s_full (uniq @ [x]))" using Cons.prems by simp
      let ?rest = "s_full ` set xs - s_full ` set (uniq @ [x])"
      have "s_full ` set (x # xs) - s_full ` set uniq = insert (s_full x) ?rest"
        using new by auto
      moreover have "s_full x \<notin> ?rest" by simp
      ultimately have card: "card (s_full ` set (x # xs) - s_full ` set uniq) = Suc (card ?rest)"
        by simp
      from Cons.IH[OF d] False nex card show ?thesis by (auto simp: min_def)
    qed
  qed
qed

lemma length_unique_hypotheses_nth:
  "map length (unique_hypotheses count by_seq)
     = map (\<lambda>hs. min (nat count) (card (s_full ` set hs))) by_seq"
  by (simp add: unique_hypotheses_def unique_loop_length set_sorted_reverse)

lemma unique_hypotheses_sorted:
  "j < length by_seq \<Longrightarrow>
     sorted_wrt (\<lambda>a b. s_probability b \<le> s_probability a) (unique_hypotheses count by_seq ! j)"
  by (simp add: unique_hypotheses_nth unique_loop_sorted sorted_sorted_reverse)

lemma unique_hypotheses_subset:
  "j < length by_seq \<Longrightarrow> set (unique_hypotheses count by_seq ! j) \<subseteq> set (by_seq ! j)"
  using unique_loop_subset[of count "sorted_reverse (by_seq ! j)" "[]"]
  by (simp add: unique_hypotheses_nth set_sorted_reverse)

lemma unique_hypotheses_dropped_below:
  assumes "j < length by_seq" and "h \<in> set (by_seq ! j)"
    and "s_full h \<notin> s_full ` set (unique_hypotheses count by_seq ! j)"
    and "r \<in> set (unique_hypotheses count by_seq ! j)"
  shows "s_probability h \<le> s_probability r"
proof (rule unique_loop_dropped_below[where uniq = "[]" and hs = "sorted_reverse (by_seq ! j)"
      and count = count])
  show "h \<in> set (sorted_reverse (by_seq ! j))" using assms(2) by (simp add: set_sorted_reverse)
  show "s_full h \<notin> s_full ` set (unique_loop count (sorted_reverse (by_seq ! j)) [])"
    using assms(1,3) by (simp add: unique_hypotheses_nth)
  show "r \<in> set (unique_loop count (sorted_reverse (by_seq ! j)) [])"
    using assms(1,4) by (simp add: unique_hypotheses_nth)
qed (simp_all add: sorted_sorted_reverse)

text \<open>
  When no kept hypothesis of input \<open>j\<close> has the sequence of a candidate, every kept
  hypothesis of that input is at least as probable as the candidate.
\<close>

lemma pick_top_k_unique_dropped_below:
  assumes "unbatch_hypotheses hypotheses = Inr by_seq"
    and "pick_top_k_unique hypotheses count = Inr beam" and "j < length by_seq"
    and "h \<in> set (by_seq ! j)"
    and "s_full h \<notin> set (map (\<lambda>b. b_full b ! j) beam)"
    and "b \<in> set beam"
  shows "s_probability h \<le> b_probability b ! j"
proof -
  let ?U = "unique_hypotheses count by_seq ! j"
  note le = pick_top_k_unique_retained(2)[OF assms(1-3)]
  note fulls = pick_top_k_unique_fulls[OF assms(1-3)]
  from assms(6) obtain i where i: "i < length beam" "b = beam ! i"
    by (auto simp: in_set_conv_nth)
  have "map (\<lambda>b. single_h b j) beam ! i = map Inr (take (length beam) ?U) ! i"
    using pick_top_k_unique_retained(1)[OF assms(1-3)] by simp
  then have sh: "single_h b j = Inr (?U ! i)" using i le by simp
  have iU: "i < length ?U" using i(1) le by simp
  have "s_probability h \<le> s_probability (?U ! i)"
  proof (cases "s_full h \<in> s_full ` set ?U")
    case False
    from unique_hypotheses_dropped_below[OF assms(3,4) False] iU show ?thesis by simp
  next
    case True
    then obtain k where k: "k < length ?U" "s_full (?U ! k) = s_full h"
      by (auto simp: in_set_conv_nth)
    have "length beam \<le> k"
    proof (rule ccontr)
      assume "\<not> length beam \<le> k"
      then have "k < length beam" by simp
      then have "map (\<lambda>b. b_full b ! j) beam ! k = s_full h"
        unfolding fulls using k by simp
      moreover have "map (\<lambda>b. b_full b ! j) beam ! k \<in> set (map (\<lambda>b. b_full b ! j) beam)"
        using \<open>k < length beam\<close> by (intro nth_mem) simp
      ultimately show False using assms(5) by simp
    qed
    with i(1) have "i < k" by simp
    from sorted_wrt_nth_less[OF unique_hypotheses_sorted[OF assms(3)] this k(1)]
    have "s_probability (?U ! k) \<le> s_probability (?U ! i)" .
    moreover have "s_probability h \<le> s_probability (?U ! k)"
    proof (rule unique_hypotheses_best[OF assms(3) _ assms(4)])
      show "?U ! k \<in> set ?U" using k(1) by simp
      show "s_full h = s_full (?U ! k)" using k(2) by simp
    qed
    ultimately show ?thesis by simp
  qed
  with single_h_Inr_fields[OF sh] show ?thesis by simp
qed

lemma pick_top_k_unique_length:
  assumes "unbatch_hypotheses hypotheses = Inr by_seq"
    and "pick_top_k_unique hypotheses count = Inr beam"
  shows "length beam = min_list (map (\<lambda>hs. min (nat count) (card (s_full ` set hs))) by_seq)"
proof -
  have "batch_single_hypotheses (unique_hypotheses count by_seq) = Inr beam"
    using assms by (simp add: pick_top_k_unique_def)
  from batch_single_Inr(2)[OF this] show ?thesis
    by (simp add: length_unique_hypotheses_nth)
qed

lemmas example_defs = pick_top_k_unique_def unbatch_hypotheses_def single_h_def
  unique_hypotheses_def sorted_reverse_def already_exists_def batch_single_hypotheses_def
  batch_h_def stack_tokens_def candidate_def single_candidate_def four_candidates_def
  four_by_seq_def three_survivors_def

text \<open>
  Claim C4.  In every beam that \<open>pick_top_k_unique\<close> returns, and for every input
  position \<open>j\<close> of the batch (the positions of \<open>hypotheses[0]["probability"]\<close>), the
  full sequences that the retained hypotheses hold for input \<open>j\<close> are pairwise
  different.
\<close>

theorem pick_top_k_unique_no_duplicates:
  assumes "pick_top_k_unique (h0 # rest) count = Inr beam"
    and "j < length (b_probability h0)"
  shows "distinct (map (\<lambda>b. b_full b ! j) beam)"
proof -
  from assms(1) obtain by_seq where u: "unbatch_hypotheses (h0 # rest) = Inr by_seq"
    by (auto simp: pick_top_k_unique_def split: sum.splits)
  have j: "j < length by_seq" using unbatch_hypotheses_length[OF u] assms(2) by simp
  show ?thesis
    unfolding pick_top_k_unique_fulls[OF u assms(1) j]
    by (rule distinct_take) (rule unique_hypotheses_distinct[OF j])
qed

theorem pick_top_k_unique_no_duplicates_witness:
  "pick_top_k_unique four_candidates 3 = Inr three_survivors
   \<and> distinct (map (\<lambda>b. b_full b ! 0) three_survivors)"
proof -
  have p: "pick_top_k_unique
             (candidate 3 1 (3/10) # [candidate 1 1 (9/10), candidate 3 2 (5/10), candidate 2 2 (8/10)])
             3 = Inr three_survivors"
    by (simp add: example_defs)
  have j: "0 < length (b_probability (candidate 3 1 (3/10)))"
    by (simp add: candidate_def)
  from pick_top_k_unique_no_duplicates[OF p j] p
  show ?thesis by (simp add: four_candidates_def)
qed

text \<open>
  Claim C3, as the code has it.  Of two candidates of one input with the same full sequence
  and different probabilities, the one with the lower probability is never retained; every
  hypothesis retained for that input is one of its candidates, and one with that sequence
  has at least the higher probability.  The sequence is dropped altogether only when every
  hypothesis retained for that input has at least the higher probability: the beam is then
  filled by others.  The beam holds, for every input, as many hypotheses as the smallest
  number over the inputs of \<open>count\<close> and the number of different candidate sequences.
\<close>

theorem pick_top_k_unique_never_keeps_lower_duplicate:
  assumes "unbatch_hypotheses hypotheses = Inr by_seq"
    and "pick_top_k_unique hypotheses count = Inr beam"
    and "j < length by_seq"
    and "lo \<in> set (by_seq ! j)" and "hi \<in> set (by_seq ! j)"
    and "s_full lo = s_full hi" and "s_probability lo < s_probability hi"
  shows "(\<forall>b\<in>set beam. single_h b j \<noteq> Inr lo)
       \<and> (\<forall>b\<in>set beam. \<exists>r\<in>set (by_seq ! j). single_h b j = Inr r)
       \<and> (\<forall>b\<in>set beam. b_full b ! j = s_full hi \<longrightarrow> s_probability hi \<le> b_probability b ! j)
       \<and> ((\<exists>b\<in>set beam. b_full b ! j = s_full hi)
           \<or> (\<forall>b\<in>set beam. s_probability hi \<le> b_probability b ! j))
       \<and> length beam = min_list (map (\<lambda>hs. min (nat count) (card (s_full ` set hs))) by_seq)"
proof -
  have kept: "\<exists>r\<in>set (unique_hypotheses count by_seq ! j). single_h b j = Inr r"
    if "b \<in> set beam" for b
    by (rule pick_top_k_unique_member[OF assms(1-3) that])
  have a: "\<forall>b\<in>set beam. single_h b j \<noteq> Inr lo"
  proof
    fix b assume "b \<in> set beam"
    from kept[OF this] obtain r
      where r: "r \<in> set (unique_hypotheses count by_seq ! j)" "single_h b j = Inr r" by blast
    show "single_h b j \<noteq> Inr lo"
    proof
      assume "single_h b j = Inr lo"
      with r have "r = lo" by simp
      with unique_hypotheses_best[OF assms(3) r(1) assms(5)] assms(6,7) show False by simp
    qed
  qed
  have b: "\<forall>b\<in>set beam. \<exists>r\<in>set (by_seq ! j). single_h b j = Inr r"
    using kept unique_hypotheses_subset[OF assms(3), of count] by blast
  have c: "\<forall>b\<in>set beam. b_full b ! j = s_full hi \<longrightarrow> s_probability hi \<le> b_probability b ! j"
  proof (intro ballI impI)
    fix b assume "b \<in> set beam" and same: "b_full b ! j = s_full hi"
    from kept[OF this(1)] obtain r
      where r: "r \<in> set (unique_hypotheses count by_seq ! j)" "single_h b j = Inr r" by blast
    from same single_h_Inr_fields[OF r(2)] have "s_full hi = s_full r" by simp
    from unique_hypotheses_best[OF assms(3) r(1) assms(5) this] single_h_Inr_fields[OF r(2)]
    show "s_probability hi \<le> b_probability b ! j" by simp
  qed
  have d: "(\<exists>b\<in>set beam. b_full b ! j = s_full hi)
           \<or> (\<forall>b\<in>set beam. s_probability hi \<le> b_probability b ! j)"
  proof (cases "s_full hi \<in> set (map (\<lambda>b. b_full b ! j) beam)")
    case True
    then show ?thesis by auto
  next
    case False
    from pick_top_k_unique_dropped_below[OF assms(1-3) assms(5) False] show ?thesis by blast
  qed
  note e = pick_top_k_unique_length[OF assms(1,2)]
  from a b c d e show ?thesis by blast
qed

theorem pick_top_k_unique_never_keeps_lower_duplicate_witness:
  "pick_top_k_unique four_candidates 4 = Inr three_survivors
   \<and> \<not> list_ex (\<lambda>b. single_h b 0 = Inr (single_candidate 3 1 (3/10))) three_survivors
   \<and> list_ex (\<lambda>b. b_full b ! 0 = [0, 3] \<and> 5/10 \<le> b_probability b ! 0) three_survivors
   \<and> length three_survivors = 3"
proof -
  have u: "unbatch_hypotheses four_candidates = Inr four_by_seq"
    by (simp add: example_defs)
  have p: "pick_top_k_unique four_candidates 4 = Inr three_survivors"
    by (simp add: example_defs)
  have j: "0 < length four_by_seq" by (simp add: four_by_seq_def)
  have lo: "single_candidate 3 1 (3/10) \<in> set (four_by_seq ! 0)"
    and hi: "single_candidate 3 2 (5/10) \<in> set (four_by_seq ! 0)"
    by (simp_all add: four_by_seq_def)
  have same: "s_full (single_candidate 3 1 (3/10)) = s_full (single_candidate 3 2 (5/10))"
    and less: "s_probability (single_candidate 3 1 (3/10)) < s_probability (single_candidate 3 2 (5/10))"
    by (simp_all add: single_candidate_def)
  from pick_top_k_unique_never_keeps_lower_duplicate[OF u p j lo hi same less] p
  show ?thesis
    by (simp add: three_survivors_def candidate_def single_candidate_def single_h_def)
qed

text \<open>
  Claim C3 as stated fails where the beam is cut.  With \<open>count = 2\<close> the two candidates
  with the sequence \<open>[0, 3]\<close> (probabilities \<open>3/10\<close> and \<open>5/10\<close>) are both dropped,
  the one with the higher probability too: the beam is filled by the sequences \<open>[0, 1]\<close>
  and \<open>[0, 2]\<close> before either is reached.
\<close>

theorem pick_top_k_unique_drops_both_duplicates:
  "unbatch_hypotheses four_candidates = Inr four_by_seq
   \<and> s_full (four_by_seq ! 0 ! 0) = [0, 3] \<and> s_probability (four_by_seq ! 0 ! 0) = 3/10
   \<and> s_full (four_by_seq ! 0 ! 2) = [0, 3] \<and> s_probability (four_by_seq ! 0 ! 2) = 5/10
   \<and> pick_top_k_unique four_candidates 2 = Inr [candidate 1 1 (9/10), candidate 2 2 (8/10)]
   \<and> b_full (candidate 1 1 (9/10)) ! 0 \<noteq> [0, 3]
   \<and> b_full (candidate 2 2 (8/10)) ! 0 \<noteq> [0, 3]"
  by (simp add: example_defs)

subsection \<open>One expansion step\<close>

lemma collect_Inr: "collect rs = Inr xs \<Longrightarrow> rs = map Inr xs"
  by (induction rs arbitrary: xs) (auto split: sum.splits)

lemma elem_le_sum_list_real:
  fixes xs :: "real list"
  shows "x \<in> set xs \<Longrightarrow> \<forall>y\<in>set xs. 0 \<le> y \<Longrightarrow> x \<le> sum_list xs"
proof (induction xs)
  case Nil
  then show ?case by simp
next
  case (Cons a xs)
  have nonneg: "0 \<le> sum_list xs" using Cons.prems(2) by (intro sum_list_nonneg) simp
  show ?case
  proof (cases "x = a")
    case True
    with nonneg show ?thesis by simp
  next
    case False
    with Cons.prems have "x \<in> set xs" "\<forall>y\<in>set xs. 0 \<le> y" by auto
    from Cons.IH[OF this] Cons.prems(2) show ?thesis by simp
  qed
qed

lemma softmax_bounds:
  assumes "p \<in> set (softmax out)"
  shows "0 < p" and "p \<le> 1"
proof -
  from assms obtain x where x: "x \<in> set out" and p: "p = exp x / sum_list (map exp out)"
    by (auto simp: softmax_def)
  have le: "exp x \<le> sum_list (map exp out)"
    using x by (intro elem_le_sum_list_real) auto
  have pos: "0 < sum_list (map exp out)"
    using le exp_gt_zero[of x] by linarith
  show "0 < p" using p pos by simp
  show "p \<le> 1" using p pos le by simp
qed

lemma topk_row_Inr:
  assumes "topk_row ps k = Inr tp"
  shows "0 \<le> k" and "length tp = nat k" and "\<And>x. x \<in> set tp \<Longrightarrow> fst x \<in> set ps"
proof -
  let ?sorted = "rev (sort_key fst (rev (zip ps (map int [0..<length ps]))))"
  from assms have k: "0 \<le> k" "k \<le> int (length ps)" and tp: "tp = take (nat k) ?sorted"
    by (auto simp: topk_row_def split: if_splits)
  show "0 \<le> k" by (rule k(1))
  show "length tp = nat k" using k tp by simp
  fix x assume "x \<in> set tp"
  then have "x \<in> set ?sorted" unfolding tp by (rule in_set_takeD)
  then have "x \<in> set (zip ps (map int [0..<length ps]))" by simp
  then show "fst x \<in> set ps" by (metis prod.collapse set_zip_leftD)
qed

lemma topk_Inr:
  assumes "topk probabilities k = Inr tops"
  shows "length tops = length probabilities"
    and "\<And>j. j < length probabilities \<Longrightarrow> topk_row (probabilities ! j) k = Inr (tops ! j)"
proof -
  from assms have eq: "map (\<lambda>row. topk_row row k) probabilities = map Inr tops"
    by (auto simp: topk_def dest: collect_Inr)
  from arg_cong[OF eq, of length] show len: "length tops = length probabilities" by simp
  fix j assume j: "j < length probabilities"
  from arg_cong[OF eq, of "\<lambda>xs. xs ! j"] j len
  show "topk_row (probabilities ! j) k = Inr (tops ! j)" by simp
qed

text \<open>What a child of one expansion step is made of.\<close>

lemma next_hypotheses_child:
  assumes "next_hypotheses dec beam_width hypothesis = Inr children"
    and "child \<in> set children"
  obtains tops c where "c < nat beam_width"
    and "length tops = length (b_full hypothesis)"
    and "length (b_probability hypothesis) = length tops"
    and "\<And>tp. tp \<in> set tops \<Longrightarrow> length tp = nat beam_width"
    and "\<And>tp x. tp \<in> set tops \<Longrightarrow> x \<in> set tp \<Longrightarrow> 0 < fst x \<and> fst x \<le> 1"
    and "b_full child = map2 (\<lambda>row top. row @ [snd (top ! c)]) (b_full hypothesis) tops"
    and "b_probability child
           = map2 (\<lambda>p top. p * fst (top ! c)) (b_probability hypothesis) tops"
proof -
  obtain out next_hidden alpha_low alpha_high
    where dec: "dec (map last (b_full hypothesis)) (b_hidden hypothesis)
                  (b_attn_low hypothesis) (b_attn_high hypothesis)
                = (out, next_hidden, alpha_low, alpha_high)"
    by (rule prod_cases4)
  from assms(1) dec obtain tops where tops: "topk (map softmax out) beam_width = Inr tops"
    and coll: "collect (map (next_hypothesis hypothesis next_hidden alpha_low alpha_high tops)
                          [0..<nat beam_width]) = Inr children"
    by (auto simp: next_hypotheses_def Let_def split: if_splits sum.splits)
  from collect_Inr[OF coll]
  have eq: "map (next_hypothesis hypothesis next_hidden alpha_low alpha_high tops)
              [0..<nat beam_width] = map Inr children" .
  from arg_cong[OF eq, of length] have len: "length children = nat beam_width" by simp
  from assms(2) obtain c where c: "c < length children" "child = children ! c"
    by (auto simp: in_set_conv_nth)
  from arg_cong[OF eq, of "\<lambda>xs. xs ! c"] c len
  have nh: "next_hypothesis hypothesis next_hidden alpha_low alpha_high tops c = Inr child"
    by simp
  then have l1: "length tops = length (b_full hypothesis)"
    and l2: "length (b_probability hypothesis) = length tops"
    and full: "b_full child = map2 (\<lambda>row top. row @ [snd (top ! c)]) (b_full hypothesis) tops"
    and prob: "b_probability child
                 = map2 (\<lambda>p top. p * fst (top ! c)) (b_probability hypothesis) tops"
    by (auto simp: next_hypothesis_def Let_def split: if_splits)
  have row: "\<exists>j<length out. topk_row (softmax (out ! j)) beam_width = Inr tp"
    if "tp \<in> set tops" for tp
  proof -
    from that obtain j where j: "j < length tops" "tp = tops ! j"
      by (auto simp: in_set_conv_nth)
    with topk_Inr[OF tops] show ?thesis by (intro exI[of _ j]) simp
  qed
  have width: "length tp = nat beam_width" if "tp \<in> set tops" for tp
    using row[OF that] topk_row_Inr(2) by blast
  have bounds: "0 < fst x \<and> fst x \<le> 1" if "tp \<in> set tops" "x \<in> set tp" for tp x
  proof -
    from row[OF that(1)] obtain j where "topk_row (softmax (out ! j)) beam_width = Inr tp"
      by blast
    from topk_row_Inr(3)[OF this that(2)] show ?thesis
      using softmax_bounds by blast
  qed
  from that[OF _ l1 l2 width bounds full prob] c(1) len show thesis by simp
qed

text \<open>
  Claim C8.  Every child that one expansion step produces from a hypothesis has, for every
  input \<open>j\<close> of the batch, the parent's full sequence followed by one more token: its
  length is the parent's length plus one.
\<close>

theorem next_hypotheses_sequence_length:
  assumes "next_hypotheses dec beam_width hypothesis = Inr children"
    and "child \<in> set children"
    and "j < length (b_full hypothesis)"
  shows "length (b_full child) = length (b_full hypothesis)
         \<and> length (b_full child ! j) = length (b_full hypothesis ! j) + 1
         \<and> butlast (b_full child ! j) = b_full hypothesis ! j"
proof (rule next_hypotheses_child[OF assms(1,2)])
  fix tops :: "(real \<times> token) list list" and c :: nat
  assume "length tops = length (b_full hypothesis)"
    and "b_full child = map2 (\<lambda>row top. row @ [snd (top ! c)]) (b_full hypothesis) tops"
  with assms(3) show ?thesis by simp
qed

theorem next_hypotheses_sequence_length_witness:
  "next_hypotheses (example_forward ()) 2 example_start
     = Inr [example_child 12 (3/17), example_child 13 (2/17)]
   \<and> length (b_full (example_child 13 (2/17)) ! 0) = length (b_full example_start ! 0) + 1"
proof -
  have sm: "softmax example_logits
              = [1/17, 1/17, 1/17, 1/17, 1/17, 1/17, 1/17, 1/17, 1/17, 1/17, 1/17, 1/17, 3/17, 2/17]"
    by (simp add: softmax_def example_logits_def)
  have tk: "topk_row (softmax example_logits) 2 = Inr [(3/17, 12), (2/17, 13)]"
    by (simp add: sm topk_row_def upt_rec)
  have nh: "next_hypotheses (example_forward ()) 2 example_start
              = Inr [example_child 12 (3/17), example_child 13 (2/17)]"
    by (simp add: next_hypotheses_def example_forward_def example_start_def topk_def tk
        next_hypothesis_def example_child_def upt_rec)
  have child: "example_child 13 (2/17) \<in> set [example_child 12 (3/17), example_child 13 (2/17)]"
    by simp
  have j: "0 < length (b_full example_start)" by (simp add: example_start_def)
  from next_hypotheses_sequence_length[OF nh child j] nh show ?thesis by simp
qed

text \<open>
  Claim C6.  The probability of a child is the parent's probability times a value that
  \<open>torch.topk\<close> selected from a softmax row, which lies between \<open>0\<close> and \<open>1\<close>: for every
  input \<open>j\<close> of the batch the child's probability is at most the parent's, the parent's
  probability being a probability (not negative).  Probabilities are real numbers here.
\<close>

theorem next_hypotheses_probability_not_increasing:
  assumes "next_hypotheses dec beam_width hypothesis = Inr children"
    and "child \<in> set children"
    and "j < length (b_probability hypothesis)"
    and "0 \<le> b_probability hypothesis ! j"
  shows "b_probability child ! j \<le> b_probability hypothesis ! j"
proof (rule next_hypotheses_child[OF assms(1,2)])
  fix tops :: "(real \<times> token) list list" and c :: nat
  assume c: "c < nat beam_width"
    and len: "length (b_probability hypothesis) = length tops"
    and width: "\<And>tp. tp \<in> set tops \<Longrightarrow> length tp = nat beam_width"
    and bounds: "\<And>tp x. tp \<in> set tops \<Longrightarrow> x \<in> set tp \<Longrightarrow> 0 < fst x \<and> fst x \<le> 1"
    and prob: "b_probability child
                 = map2 (\<lambda>p top. p * fst (top ! c)) (b_probability hypothesis) tops"
  have tj: "tops ! j \<in> set tops" using assms(3) len by simp
  from width[OF tj] c have "tops ! j ! c \<in> set (tops ! j)" by simp
  from bounds[OF tj this] have "fst (tops ! j ! c) \<le> 1" by simp
  with assms(4) have "b_probability hypothesis ! j * fst (tops ! j ! c)
                        \<le> b_probability hypothesis ! j"
    by (simp add: mult_left_le)
  with prob assms(3) len show ?thesis by simp
qed

theorem next_hypotheses_probability_witness:
  "next_hypotheses (example_forward ()) 2 example_start
     = Inr [example_child 12 (3/17), example_child 13 (2/17)]
   \<and> b_probability (example_child 12 (3/17)) ! 0 \<le> b_probability example_start ! 0"
proof -
  have sm: "softmax example_logits
              = [1/17, 1/17, 1/17, 1/17, 1/17, 1/17, 1/17, 1/17, 1/17, 1/17, 1/17, 1/17, 3/17, 2/17]"
    by (simp add: softmax_def example_logits_def)
  have tk: "topk_row (softmax example_logits) 2 = Inr [(3/17, 12), (2/17, 13)]"
    by (simp add: sm topk_row_def upt_rec)
  have nh: "next_hypotheses (example_forward ()) 2 example_start
              = Inr [example_child 12 (3/17), example_child 13 (2/17)]"
    by (simp add: next_hypotheses_def example_forward_def example_start_def topk_def tk
        next_hypothesis_def example_child_def upt_rec)
  have child: "example_child 12 (3/17) \<in> set [example_child 12 (3/17), example_child 13 (2/17)]"
    by simp
  have j: "0 < length (b_probability example_start)" by (simp add: example_start_def)
  have nonneg: "0 \<le> b_probability example_start ! 0" by (simp add: example_start_def)
  from next_hypotheses_probability_not_increasing[OF nh child j nonneg] nh
  show ?thesis by simp
qed

subsection \<open>The decode driver\<close>

lemma last_loop_last:
  "last_loop special_tokens non_symbols_encoded hypotheses result =
     (if hypotheses = [] then result
      else Sequence (sequence_views special_tokens non_symbols_encoded (last hypotheses)))"
  by (induction hypotheses arbitrary: result) simp_all

text \<open>
  For a data loader that exists, the rest of \<open>evaluate\<close> runs one expansion step, prunes
  with \<open>pick_top_k_unique\<close>, computes the three views of every surviving hypothesis and
  returns the variable \<open>sequence\<close>, which after the last loop holds the views of the
  hypothesis visited last: the one with the lowest probability, not the first of the beam.
  Here one image, a beam width of two and a decoder that gives token \<open>12\<close> the probability
  \<open>3/17\<close> and token \<open>13\<close> the probability \<open>2/17\<close>: the beam is \<open>[0, 12]\<close>,
  \<open>[0, 13]\<close> in this order, and the views of \<open>[0, 13]\<close> are returned.
\<close>

lemma evaluate_with_returns_last_hypothesis:
  "step_hypotheses (example_forward ()) 2 [example_start]
     = Inr [example_child 12 (3/17), example_child 13 (2/17)]
   \<and> pick_top_k_unique [example_child 12 (3/17), example_child 13 (2/17)] 2
     = Inr [example_child 12 (3/17), example_child 13 (2/17)]
   \<and> b_probability (example_child 13 (2/17)) ! 0 < b_probability (example_child 12 (3/17)) ! 0
   \<and> evaluate_with example_token_to_id [''<SOS>'', ''<PAD>''] ''<SOS>'' (\<lambda>imgs. ()) example_decoder [()] 2
     = Inr (Sequence \<lparr> full = [[0, 13]], removed = [[13]], symbols = [[13]] \<rparr>)"
proof -
  have sm: "softmax example_logits
              = [1/17, 1/17, 1/17, 1/17, 1/17, 1/17, 1/17, 1/17, 1/17, 1/17, 1/17, 1/17, 3/17, 2/17]"
    by (simp add: softmax_def example_logits_def)
  have tk: "topk_row (softmax example_logits) 2 = Inr [(3/17, 12), (2/17, 13)]"
    by (simp add: sm topk_row_def upt_rec)
  have nh: "next_hypotheses (example_forward ()) 2
              \<lparr> b_full = [[0]], b_hidden = [0], b_attn_low = [0], b_attn_high = [0],
                b_probability = [1] \<rparr>
              = Inr [example_child 12 (3/17), example_child 13 (2/17)]"
    by (simp add: next_hypotheses_def example_forward_def topk_def tk
        next_hypothesis_def example_child_def upt_rec)
  have step: "step_hypotheses (example_forward ()) 2 [example_start]
                = Inr [example_child 12 (3/17), example_child 13 (2/17)]"
    by (simp add: example_start_def nh)
  have pk: "pick_top_k_unique [example_child 12 (3/17), example_child 13 (2/17)] 2
              = Inr [example_child 12 (3/17), example_child 13 (2/17)]"
    by (simp add: pick_top_k_unique_def unbatch_hypotheses_def single_h_def
        unique_hypotheses_def sorted_reverse_def already_exists_def
        batch_single_hypotheses_def batch_h_def stack_tokens_def example_child_def)
  have enc1: "encode_tokens example_token_to_id [''<SOS>'', ''<PAD>''] = Inr [0, 1]"
    by (simp add: encode_tokens_def example_token_to_id_def)
  have enc2: "encode_tokens example_token_to_id non_symbols = Inr [2, 3, 4, 5, 6, 7, 8, 9, 10, 11]"
    by (simp add: encode_tokens_def example_token_to_id_def non_symbols_def)
  have start: "example_token_to_id ''<SOS>'' = Some 0"
    by (simp add: example_token_to_id_def)
  have views: "sequence_views [0, 1] [2, 3, 4, 5, 6, 7, 8, 9, 10, 11] (example_child 13 (2/17))
                 = \<lparr> full = [[0, 13]], removed = [[13]], symbols = [[13]] \<rparr>"
    by (simp add: sequence_views_def example_child_def remove_special_tokens_def Let_def)
  have ev: "evaluate_with example_token_to_id [''<SOS>'', ''<PAD>''] ''<SOS>'' (\<lambda>imgs. ())
              example_decoder [()] 2
              = Inr (Sequence \<lparr> full = [[0, 13]], removed = [[13]], symbols = [[13]] \<rparr>)"
    by (simp add: evaluate_with_def enc1 enc2 start example_decoder_def nh pk views)
  have less: "b_probability (example_child 13 (2/17)) ! 0
                < b_probability (example_child 12 (3/17)) ! 0"
    by (simp add: example_child_def)
  from step pk less ev show ?thesis by simp
qed

text \<open>
  Claim C1.  \<open>evaluate\<close> should run the expansion step for its fixed budget, filter the
  sequences of the final beam into the three views and return the sequence of the
  hypothesis with the highest probability.  The code does not get that far: its first
  statement \<open>data_loader = DataLoader()\<close> constructs the loader without the dataset it
  requires, so for every image tensor and every beam width \<open>evaluate\<close> raises
  \<open>TypeError\<close> before the encoder is run.
\<close>

theorem evaluate_raises_type_error:
  "evaluate SPECIAL_TOKENS START enc dec test_img beam_width = Inl TypeError"
  by (simp add: evaluate_def DataLoader_def)

subsection \<open>Statistics\<close>

lemma py_truediv_zero: "py_truediv a 0 = Inl ZeroDivisionError"
  by (simp add: py_truediv_def)

lemma py_truediv_nonzero: "b \<noteq> 0 \<Longrightarrow> py_truediv a b = Inr (real_of_int a / real_of_int b)"
  by (simp add: py_truediv_def)

text \<open>With token counts and a batch that are not empty, the statistics are computed.\<close>

lemma create_statistics_defined:
  assumes "full (num_tokens hypothesis) \<noteq> 0" and "removed (num_tokens hypothesis) \<noteq> 0"
    and "symbols (num_tokens hypothesis) \<noteq> 0" and "full (sequence hypothesis) \<noteq> []"
  shows "\<exists>stats. create_statistics hypothesis = Inr stats"
  using assms by (simp add: create_statistics_def Let_def py_truediv_nonzero)

text \<open>
  Claim C7.  When the expected token count of any of the three views is zero,
  \<open>create_statistics\<close> fails with \<open>ZeroDivisionError\<close>: the error rate of that view is a
  division of two integers, and nothing catches the exception.  It does not return a rate
  of \<open>0\<close> or \<open>nan\<close>.
\<close>

theorem create_statistics_zero_division:
  assumes "full (num_tokens hypothesis) = 0 \<or> removed (num_tokens hypothesis) = 0
           \<or> symbols (num_tokens hypothesis) = 0"
  shows "create_statistics hypothesis = Inl ZeroDivisionError"
proof -
  consider "full (num_tokens hypothesis) = 0"
    | "full (num_tokens hypothesis) \<noteq> 0" "removed (num_tokens hypothesis) = 0"
    | "full (num_tokens hypothesis) \<noteq> 0" "removed (num_tokens hypothesis) \<noteq> 0"
      "symbols (num_tokens hypothesis) = 0"
    using assms by blast
  then show ?thesis
  proof cases
    case 1
    then show ?thesis by (simp add: create_statistics_def Let_def py_truediv_zero)
  next
    case 2
    then show ?thesis
      by (simp add: create_statistics_def Let_def py_truediv_zero py_truediv_nonzero)
  next
    case 3
    then show ?thesis
      by (simp add: create_statistics_def Let_def py_truediv_zero py_truediv_nonzero)
  qed
qed

theorem create_statistics_zero_division_witness:
  "symbols (num_tokens no_symbols_input) = 0
   \<and> create_statistics no_symbols_input = Inl ZeroDivisionError"
proof -
  have zero: "full (num_tokens no_symbols_input) = 0 \<or> removed (num_tokens no_symbols_input) = 0
              \<or> symbols (num_tokens no_symbols_input) = 0"
    by (simp add: no_symbols_input_def)
  from create_statistics_zero_division[OF zero] show ?thesis
    by (simp add: no_symbols_input_def)
qed

subsection \<open>Markdown tables\<close>





lemma length_markdown_row:
  "length (markdown_row a b c d) = length a + length b + length c + length d + 13"
  by (simp add: markdown_row_def)















end
